theory Spec2Isabelle
  imports Main "HOL-Library.Sublist"
begin

section \<open>Go runtime failures and string primitives\<close>

text \<open>
  A run-time panic of the Go program is a value: every indexing and slicing expression of
  the source that can go out of range, and every dereference of a nil node, is a branch of
  the model that yields \<open>Inl\<close> of the panic.
\<close>

datatype panic = IndexOutOfRange | SliceBoundsOutOfRange | NilDereference

definition andThen :: "panic + 'a \<Rightarrow> ('a \<Rightarrow> panic + 'b) \<Rightarrow> panic + 'b" where
  "andThen r f = (case r of Inl e \<Rightarrow> Inl e | Inr x \<Rightarrow> f x)"

abbreviation pathSepB :: char where "pathSepB \<equiv> CHR ''/''"
abbreviation pathSep :: string where "pathSep \<equiv> ''/''"
abbreviation ParamStart :: string where "ParamStart \<equiv> '':''"
abbreviation WildcardParamStart :: string where "WildcardParamStart \<equiv> ''*''"
abbreviation PrefixParamStart :: string where "PrefixParamStart \<equiv> ''+:''"
abbreviation SuffixParamStart :: string where "SuffixParamStart \<equiv> ''-:''"

text \<open>\<open>strings.Index\<close>: the first position of a substring, \<open>None\<close> for Go's \<open>-1\<close>.\<close>

fun strings_Index :: "string \<Rightarrow> string \<Rightarrow> nat option" where
  "strings_Index [] substr = (if substr = [] then Some 0 else None)"
| "strings_Index (c # s) substr =
     (if prefix substr (c # s) then Some 0 else map_option Suc (strings_Index s substr))"

definition strings_Contains :: "string \<Rightarrow> string \<Rightarrow> bool" where
  "strings_Contains s substr = (strings_Index s substr \<noteq> None)"

text \<open>\<open>strings.LastIndex\<close> for the one-byte separator the source passes.\<close>

definition strings_LastIndex :: "string \<Rightarrow> char \<Rightarrow> nat option" where
  "strings_LastIndex s sep =
     (case strings_Index (rev s) [sep] of None \<Rightarrow> None | Some k \<Rightarrow> Some (length s - 1 - k))"

text \<open>\<open>strings.Split\<close> on a one-byte separator: always at least one piece.\<close>

fun strings_Split :: "string \<Rightarrow> char \<Rightarrow> string list" where
  "strings_Split [] sep = [[]]"
| "strings_Split (c # s) sep =
     (if c = sep then [] # strings_Split s sep
      else (case strings_Split s sep of [] \<Rightarrow> [[c]] | w # ws \<Rightarrow> (c # w) # ws))"

text \<open>
  \<open>strings.ToLower\<close> on ASCII strings, where Go lowers the letters \<open>A\<close> to \<open>Z\<close> byte by
  byte. On a string with a byte of 128 or more Go decodes UTF-8, maps each rune with the
  Unicode tables and replaces invalid bytes, and the result can have another length; this
  definition does not follow Go there. The results below that hold in case-insensitive
  mode either assume ASCII patterns or do not depend on what lowering returns, beyond that
  it leaves \<open>/\<close> and \<open>*\<close> as they are.
\<close>

definition toLowerByte :: "char \<Rightarrow> char" where
  "toLowerByte c = (let k = (of_char c :: nat) in if 65 \<le> k \<and> k \<le> 90 then char_of (k + 32) else c)"

definition strings_ToLower :: "string \<Rightarrow> string" where
  "strings_ToLower s = map toLowerByte s"

text \<open>The slice expressions \<open>s[lo:hi]\<close> and \<open>s[lo:]\<close>, which panic out of range.\<close>

definition slice :: "string \<Rightarrow> nat \<Rightarrow> nat \<Rightarrow> panic + string" where
  "slice s lo hi =
     (if lo \<le> hi \<and> hi \<le> length s then Inr (take (hi - lo) (drop lo s))
      else Inl SliceBoundsOutOfRange)"

definition sliceFrom :: "string \<Rightarrow> nat \<Rightarrow> panic + string" where
  "sliceFrom s lo = slice s lo (length s)"

section \<open>Nodes\<close>

text \<open>
  The fields of \<open>Node\<close> that insertion and search read or write: those of the struct
  that declares the length tables, and \<open>hasDynamicChild\<close>, \<open>pathIndex\<close> and \<open>staticKey\<close>,
  which \<open>insert\<close> and \<open>Search\<close> assign and read. The payload (\<open>Handler\<close>, \<open>Tag\<close>,
  \<open>Data\<close>) is opaque to both and left out. The field \<open>end\<close> is named \<open>end'\<close>. The lengths
  and counts are Go \<open>int\<close>s that are never negative, so they are naturals here.
  The \<open>children\<close> map is an association list read with \<open>map_of\<close>; \<open>addChild\<close> never
  overwrites a key, so a key occurs at most once.
\<close>

record fields =
  hasDynamicChild :: bool
  childNamedParameter :: bool
  childWildcardParameter :: bool
  childPrefixParameter :: bool
  childSuffixParameter :: bool
  childPrefixLengths :: "nat list"
  childSuffixLengths :: "nat list"
  pathIndex :: nat
  paramCount :: nat
  paramKeys :: "string list"
  end' :: bool
  key :: string
  staticKey :: string

datatype node = Node (flds: fields) (children: "(string \<times> node) list")

text \<open>
  The nodes form a tree owned from the root, and a node is reached from its parent only.
  A \<open>*Node\<close> is therefore modelled by the list of child keys that leads from the root to
  the node, \<open>None\<close> being \<open>nil\<close>; two pointers are equal iff the paths are. The \<open>parent\<close>
  field of a node is its path without the last key, and the root has no parent.
\<close>

type_synonym ref = "string list"
type_synonym ptr = "string list option"

definition NewNode :: node where
  "NewNode = Node \<lparr>hasDynamicChild = False, childNamedParameter = False,
     childWildcardParameter = False, childPrefixParameter = False,
     childSuffixParameter = False, childPrefixLengths = [], childSuffixLengths = [],
     pathIndex = 0, paramCount = 0, paramKeys = [], end' = False, key = [], staticKey = []\<rparr> []"

fun deref :: "node \<Rightarrow> ref \<Rightarrow> node option" where
  "deref r [] = Some r"
| "deref r (k # ks) = (case map_of (children r) k of None \<Rightarrow> None | Some c \<Rightarrow> deref c ks)"

text \<open>Assignment through a pointer: the node at the path is replaced by \<open>f\<close> of it.\<close>

fun modify :: "(node \<Rightarrow> node) \<Rightarrow> ref \<Rightarrow> node \<Rightarrow> node" where
  "modify f [] r = f r"
| "modify f (k # ks) r =
     Node (flds r) (map (\<lambda>(k', c). if k' = k then (k', modify f ks c) else (k', c)) (children r))"

definition setFields :: "(fields \<Rightarrow> fields) \<Rightarrow> node \<Rightarrow> node" where
  "setFields g nd = Node (g (flds nd)) (children nd)"

definition parent :: "ref \<Rightarrow> ptr" where
  "parent n = (if n = [] then None else Some (butlast n))"

definition getChildOf :: "node \<Rightarrow> string \<Rightarrow> node option" where
  "getChildOf nd s = map_of (children nd) s"

text \<open>\<open>getChild\<close> through a pointer: the child's pointer, or nil.\<close>

definition getChild :: "node \<Rightarrow> ref \<Rightarrow> string \<Rightarrow> panic + ptr" where
  "getChild r n s =
     (case deref r n of None \<Rightarrow> Inl NilDereference
      | Some nd \<Rightarrow> Inr (case getChildOf nd s of None \<Rightarrow> None | Some c \<Rightarrow> Some (n @ [s])))"

definition addChildOf :: "string \<Rightarrow> node \<Rightarrow> node \<Rightarrow> node" where
  "addChildOf s child nd =
     (case map_of (children nd) s of
        Some c \<Rightarrow> nd
      | None \<Rightarrow> Node (flds nd) (children nd @ [(s, child)]))"

text \<open>
  \<open>addLength\<close> receives the address of the node's length table, which is never nil, so
  the else branch runs: the length is appended to the table in place. The deduplicated,
  descending copy \<open>paramDesc\<close> is then bound to the local pointer only
  (\<open>paramSlice = &paramDesc\<close>), so the node's table keeps the appended slice.
\<close>

definition paramDescOf :: "nat list \<Rightarrow> nat list" where
  "paramDescOf xs = rev (sort (remdups xs))"

definition addLength :: "nat list \<Rightarrow> nat \<Rightarrow> nat list" where
  "addLength paramSlice l =
     (let pointee = paramSlice @ [l];
          paramDesc = paramDescOf pointee
      in pointee)"

section \<open>The trie and insertion\<close>

record Trie =
  root :: node
  hasRootWildcard :: bool
  hasRootSlash :: bool
  searchUnvisitedParams :: bool
  caseInsensitive :: bool

definition NewTrie :: Trie where
  "NewTrie = \<lparr>root = NewNode, hasRootWildcard = False, hasRootSlash = False,
     searchUnvisitedParams = False, caseInsensitive = False\<rparr>"

definition NewTrieWithOptions :: "bool \<Rightarrow> bool \<Rightarrow> Trie" where
  "NewTrieWithOptions ci su = \<lparr>root = NewNode, hasRootWildcard = False, hasRootSlash = False,
     searchUnvisitedParams = su, caseInsensitive = ci\<rparr>"

definition slowPathSplit :: "string \<Rightarrow> panic + string list" where
  "slowPathSplit path =
     (if path = pathSep then Inr [pathSep]
      else if path = [] then Inl IndexOutOfRange
      else let path' = (if last path = pathSepB then butlast path else path)
           in Inr (tl (strings_Split path' pathSepB)))"

definition resolveStaticPart :: "string \<Rightarrow> string" where
  "resolveStaticPart k =
     (let i = (case strings_Index k ParamStart of
                 Some i \<Rightarrow> i
               | None \<Rightarrow> (case strings_Index k WildcardParamStart of
                              Some i \<Rightarrow> i
                            | None \<Rightarrow> length k))
      in take i k)"

definition isPrefixParam :: "string \<Rightarrow> bool" where
  "isPrefixParam k = strings_Contains k PrefixParamStart"

definition isSuffixParam :: "string \<Rightarrow> bool" where
  "isSuffixParam k = strings_Contains k SuffixParamStart"

text \<open>
  One round of the loop of \<open>insert\<close> for the segment \<open>s\<close> at the node \<open>n\<close>: the result is
  the trie, the canonical child key that replaces \<open>s\<close>, and the parameter keys so far.
  The segment is classified by its first byte and by the tokens \<open>+:\<close> and \<open>-:\<close>. It is
  not empty (the loop reads \<open>s[0]\<close> first), and \<open>strings.Index\<close> finds the token in the
  branch that \<open>strings.Contains\<close> selects, so \<open>hd\<close> and \<open>the\<close> are applied where they are
  defined.
\<close>

definition classify :: "Trie \<Rightarrow> ref \<Rightarrow> string list \<Rightarrow> string \<Rightarrow> Trie \<times> string \<times> string list" where
  "classify t n pks s =
     (let c = hd s;
          isParam = (c = CHR '':'');
          isWildcard = (c = CHR ''*'');
          isPrefix = isPrefixParam s;
          isSuffix = isSuffixParam s
      in if isParam \<or> isWildcard \<or> isPrefix \<or> isSuffix then
           (let t = t\<lparr>root := modify (setFields (\<lambda>f. f\<lparr>hasDynamicChild := True\<rparr>)) n (root t)\<rparr>
            in if isParam then
                 (t\<lparr>root := modify (setFields (\<lambda>f. f\<lparr>childNamedParameter := True\<rparr>)) n (root t)\<rparr>,
                  ParamStart, pks @ [tl s])
               else if isWildcard then
                 (let t = t\<lparr>root := modify (setFields (\<lambda>f. f\<lparr>childWildcardParameter := True\<rparr>)) n (root t)\<rparr>
                  in (if n = [] then t\<lparr>hasRootWildcard := True\<rparr> else t,
                      WildcardParamStart, pks @ [tl s]))
               else if isPrefix then
                 (let indx = the (strings_Index s PrefixParamStart)
                  in (t\<lparr>root := modify (setFields (\<lambda>f. f\<lparr>childPrefixParameter := True,
                          childPrefixLengths := addLength (childPrefixLengths f) indx\<rparr>)) n (root t)\<rparr>,
                      take (indx + 2) s, pks @ [drop (indx + 2) s]))
               else
                 (let indx = the (strings_Index s SuffixParamStart)
                  in (t\<lparr>root := modify (setFields (\<lambda>f. f\<lparr>childSuffixParameter := True,
                          childSuffixLengths := addLength (childSuffixLengths f) (length s - (indx + 2))\<rparr>)) n (root t)\<rparr>,
                      drop indx s, pks @ [take indx s])))
         else (t, s, pks))"

fun insert_loop :: "Trie \<Rightarrow> ref \<Rightarrow> string list \<Rightarrow> nat \<Rightarrow> string list \<Rightarrow> panic + (Trie \<times> ref \<times> string list)" where
  "insert_loop t n pks i [] = Inr (t, n, pks)"
| "insert_loop t n pks i (s # input) =
     (if s = [] then Inl IndexOutOfRange
      else
        (let t = t\<lparr>root := modify (setFields (\<lambda>f. f\<lparr>pathIndex := i + 1, paramCount := length pks\<rparr>)) n (root t)\<rparr>;
             (t, s, pks) = classify t n pks s;
             s = (if caseInsensitive t then strings_ToLower s else s);
             t = t\<lparr>root := modify (addChildOf s NewNode) n (root t)\<rparr>
         in insert_loop t (n @ [s]) pks (i + 1) input))"

text \<open>
  \<open>Trie.insert\<close>, here \<open>Trie_insert\<close>: the trie after the insertion and the pointer to the
  terminal node.
  \<open>Trie.Insert\<close> panics on the empty pattern before it calls \<open>insert\<close>, which is the
  empty-path branch of \<open>slowPathSplit\<close> here.
\<close>

definition Trie_insert :: "Trie \<Rightarrow> string \<Rightarrow> panic + (Trie \<times> ref)" where
  "Trie_insert t k =
     andThen (slowPathSplit k) (\<lambda>input.
       let t = (if k = pathSep then t\<lparr>hasRootSlash := True\<rparr> else t)
       in andThen (insert_loop t [] [] 0 input) (\<lambda>(t, n, pks).
            Inr (t\<lparr>root := modify (setFields (\<lambda>f. f\<lparr>paramKeys := pks, key := k,
                        staticKey := resolveStaticPart k, end' := True\<rparr>)) n (root t)\<rparr>, n)))"

text \<open>
  A sequence of insertions, stopping at the first panic: the trie at the end and the
  terminal node of each pattern, in order.
\<close>

fun insertAll :: "Trie \<Rightarrow> string list \<Rightarrow> panic + (Trie \<times> ref list)" where
  "insertAll t [] = Inr (t, [])"
| "insertAll t (k # ks) =
     (case Trie_insert t k of Inl e \<Rightarrow> Inl e
      | Inr (t', n) \<Rightarrow>
          (case insertAll t' ks of Inl e \<Rightarrow> Inl e
           | Inr (t'', ns) \<Rightarrow> Inr (t'', n # ns)))"

section \<open>The captured-value buffer\<close>

text \<open>
  \<open>paramValues\<close> is a Go slice: a backing array, whose length is the capacity, and a
  length. Reslicing \<open>paramValues[:lim]\<close> with \<open>lim\<close> up to the capacity keeps the backing
  array, so it can bring back elements beyond the old length. \<open>append\<close> beyond the
  capacity allocates a new array, the fresh elements being empty strings. Its capacity is
  the choice of the Go runtime: 1 for the first element of a nil slice, then the double,
  which is what the runtime gives a slice of strings up to 32 elements. Beyond that the
  runtime rounds to the size classes of its allocator and this definition does not follow
  it; the results below capture fewer values.
\<close>

record pslice =
  backing :: "string list"
  len :: nat

definition nilSlice :: pslice where
  "nilSlice = \<lparr>backing = [], len = 0\<rparr>"

definition cap :: "pslice \<Rightarrow> nat" where
  "cap ps = length (backing ps)"

definition elems :: "pslice \<Rightarrow> string list" where
  "elems ps = take (len ps) (backing ps)"

definition growCap :: "nat \<Rightarrow> nat" where
  "growCap c = (if c = 0 then 1 else 2 * c)"

definition goAppend :: "pslice \<Rightarrow> string \<Rightarrow> pslice" where
  "goAppend ps v =
     (if cap ps > len ps then \<lparr>backing = (backing ps)[len ps := v], len = len ps + 1\<rparr>
      else \<lparr>backing = elems ps @ [v] @ replicate (growCap (cap ps) - (len ps + 1)) [],
             len = len ps + 1\<rparr>)"

definition appendParameterValue :: "pslice \<Rightarrow> string \<Rightarrow> pslice" where
  "appendParameterValue ps v =
     (let ln = len ps
      in if cap ps > ln then \<lparr>backing = (backing ps)[ln := v], len = ln + 1\<rparr>
         else goAppend ps v)"

text \<open>\<open>paramValues[:lim]\<close> for \<open>lim = min(n.paramCount, cap(paramValues))\<close>, never out of range.\<close>

definition truncateTo :: "nat \<Rightarrow> pslice \<Rightarrow> pslice" where
  "truncateTo paramCnt ps = ps\<lparr>len := min paramCnt (cap ps)\<rparr>"

section \<open>Lookups on a node\<close>

fun prefixProbe :: "node \<Rightarrow> string \<Rightarrow> nat list \<Rightarrow> string option" where
  "prefixProbe nd s [] = None"
| "prefixProbe nd s (indx # rest) =
     (if indx > length s then prefixProbe nd s rest
      else (case getChildOf nd (take indx s @ PrefixParamStart) of
              Some c \<Rightarrow> Some (take indx s @ PrefixParamStart)
            | None \<Rightarrow> prefixProbe nd s rest))"

text \<open>
  \<open>getPrefixParamChild\<close> and \<open>getSuffixParamChild\<close> return a node and a flag; the flag is
  true exactly when the node is not nil, so the result here is the pointer alone.
\<close>

definition getPrefixParamChild :: "node \<Rightarrow> ref \<Rightarrow> string \<Rightarrow> panic + ptr" where
  "getPrefixParamChild r n s =
     (case deref r n of None \<Rightarrow> Inl NilDereference
      | Some nd \<Rightarrow>
          if \<not> childPrefixParameter (flds nd) then Inr None
          else Inr (map_option (\<lambda>k. n @ [k]) (prefixProbe nd s (childPrefixLengths (flds nd)))))"

fun suffixProbe :: "node \<Rightarrow> string \<Rightarrow> nat list \<Rightarrow> string option" where
  "suffixProbe nd s [] = None"
| "suffixProbe nd s (suffixLen # rest) =
     (if suffixLen > length s then suffixProbe nd s rest
      else (case getChildOf nd (SuffixParamStart @ drop (length s - suffixLen) s) of
              Some c \<Rightarrow> Some (SuffixParamStart @ drop (length s - suffixLen) s)
            | None \<Rightarrow> suffixProbe nd s rest))"

definition getSuffixParamChild :: "node \<Rightarrow> ref \<Rightarrow> string \<Rightarrow> panic + ptr" where
  "getSuffixParamChild r n s =
     (case deref r n of None \<Rightarrow> Inl NilDereference
      | Some nd \<Rightarrow>
          if \<not> childSuffixParameter (flds nd) then Inr None
          else Inr (map_option (\<lambda>k. n @ [k]) (suffixProbe nd s (childSuffixLengths (flds nd)))))"

text \<open>The loop of \<open>findClosestParentWildcardNode\<close>, from the pointer it is at.\<close>

function climbWildcard :: "node \<Rightarrow> ptr \<Rightarrow> panic + ptr" where
  "climbWildcard r None = Inr None"
| "climbWildcard r (Some n) =
     (case deref r n of None \<Rightarrow> Inl NilDereference
      | Some nd \<Rightarrow>
          if childWildcardParameter (flds nd) then getChild r n WildcardParamStart
          else climbWildcard r (parent n))"
  by pat_completeness auto
termination
  by (relation "measure (\<lambda>(r, p). case p of None \<Rightarrow> 0 | Some n \<Rightarrow> Suc (length n))")
     (auto simp: parent_def)

definition findClosestParentWildcardNode :: "node \<Rightarrow> ref \<Rightarrow> panic + ptr" where
  "findClosestParentWildcardNode r n = climbWildcard r (parent n)"

text \<open>
  The loop of \<open>findClosestUnvisitedNode\<close>, from the pointer it is at and the current
  \<open>start\<close> and \<open>i\<close>. A child that a flag promises and the map does not hold is returned
  as nil when nil is not in the visited set, as the source does.
\<close>

function climbUnvisited :: "node \<Rightarrow> ptr \<Rightarrow> ptr list \<Rightarrow> string \<Rightarrow> nat \<Rightarrow> nat \<Rightarrow> panic + (ptr \<times> nat \<times> nat)" where
  "climbUnvisited r None visited path start i = Inr (None, start, i)"
| "climbUnvisited r (Some n) visited path start i =
     (if i > length path then Inl SliceBoundsOutOfRange
      else
        (let i = (case strings_LastIndex (take i path) pathSepB of None \<Rightarrow> 0 | Some k \<Rightarrow> k);
             start = (case strings_LastIndex (take i path) pathSepB of None \<Rightarrow> 0 | Some k \<Rightarrow> k + 1)
         in andThen (slice path start i) (\<lambda>segment.
            andThen (getPrefixParamChild r n segment) (\<lambda>pc.
              if pc \<noteq> None \<and> pc \<notin> set visited then Inr (pc, start, i)
              else
                andThen (getSuffixParamChild r n segment) (\<lambda>sc.
                  if sc \<noteq> None \<and> sc \<notin> set visited then Inr (sc, start, i)
                  else
                    (case deref r n of None \<Rightarrow> Inl NilDereference
                     | Some nd \<Rightarrow>
                         andThen (getChild r n ParamStart) (\<lambda>nc.
                           if childNamedParameter (flds nd) \<and> nc \<notin> set visited then Inr (nc, start, i)
                           else
                             andThen (getChild r n WildcardParamStart) (\<lambda>wc.
                               if childWildcardParameter (flds nd) \<and> wc \<notin> set visited
                               then Inr (wc, start, i)
                               else climbUnvisited r (parent n) visited path start i))))))))"
  by pat_completeness auto
termination
  by (relation "measure (\<lambda>(r, p, v, q, s, i). case p of None \<Rightarrow> 0 | Some n \<Rightarrow> Suc (length n))")
     (auto simp: parent_def)

definition findClosestUnvisitedNode :: "node \<Rightarrow> ref \<Rightarrow> ptr list \<Rightarrow> string \<Rightarrow> nat \<Rightarrow> panic + (ptr \<times> nat \<times> nat)" where
  "findClosestUnvisitedNode r n visited path i = climbUnvisited r (parent n) visited path 0 i"

section \<open>Search\<close>

text \<open>The calls \<open>params.Set(name, value)\<close> that a search makes, in order.\<close>

type_synonym sets = "(string \<times> string) list"

text \<open>
  The state of the loop of \<open>Search\<close>: the node \<open>n\<close>, \<open>start\<close>, \<open>i\<close>, \<open>paramValues\<close> and
  \<open>visitedNodes\<close>. One round of the loop either goes on with a new state or leaves the
  loop: by \<open>break\<close>, by a \<open>return\<close> inside the loop, or by a panic.
\<close>

datatype state = State (cur: ptr) (startIx: nat) (ix: nat) (paramValues: pslice) (visitedNodes: "ptr list")

datatype exit = Broke ptr pslice | Returned ptr sets | Panicked panic

datatype step = Continue state | Exit exit

text \<open>
  The fallback to the closest wildcard of an ancestor:
  \<open>params.Set(n.paramKeys[0], q[len(n.staticKey):])\<close> on the node found, if any.
\<close>

definition wildcardFallback :: "node \<Rightarrow> ref \<Rightarrow> string \<Rightarrow> panic + (ref \<times> sets) option" where
  "wildcardFallback r n q =
     andThen (findClosestParentWildcardNode r n) (\<lambda>w.
       case w of None \<Rightarrow> Inr None
       | Some wn \<Rightarrow>
           (case deref r wn of None \<Rightarrow> Inl NilDereference
            | Some nd \<Rightarrow>
                (case paramKeys (flds nd) of [] \<Rightarrow> Inl IndexOutOfRange
                 | k # ks \<Rightarrow>
                     andThen (sliceFrom q (length (staticKey (flds nd)))) (\<lambda>v.
                       Inr (Some (wn, [(k, v)]))))))"

text \<open>\<open>appendParameterValue(&paramValues, q[start:i])\<close>.\<close>

definition capture :: "string \<Rightarrow> nat \<Rightarrow> nat \<Rightarrow> pslice \<Rightarrow> panic + pslice" where
  "capture q start i pv = andThen (slice q start i) (\<lambda>v. Inr (appendParameterValue pv v))"

text \<open>
  The node found by \<open>findClosestUnvisitedNode\<close> becomes the current one: it is marked
  visited, \<open>paramValues\<close> is cut to \<open>min(n.paramCount, cap(paramValues))\<close> and
  \<open>q[start:i]\<close> is appended.
\<close>

definition takeUnvisited :: "node \<Rightarrow> string \<Rightarrow> ref \<Rightarrow> nat \<Rightarrow> nat \<Rightarrow> pslice \<Rightarrow> panic + pslice" where
  "takeUnvisited r q u start i pv =
     (case deref r u of None \<Rightarrow> Inl NilDereference
      | Some nd \<Rightarrow> capture q start i (truncateTo (paramCount (flds nd)) pv))"

text \<open>The end of a round that resolved the segment (\<open>if i == end \<dots> i++; start = i\<close>).\<close>

definition afterSegment :: "Trie \<Rightarrow> string \<Rightarrow> string \<Rightarrow> ptr \<Rightarrow> nat \<Rightarrow> pslice \<Rightarrow> ptr list \<Rightarrow> step" where
  "afterSegment t q qc n i pv visited =
     (if i = length q then
        (if searchUnvisitedParams t then
           (case n of None \<Rightarrow> Exit (Panicked NilDereference)
            | Some nr \<Rightarrow>
                (case deref (root t) nr of None \<Rightarrow> Exit (Panicked NilDereference)
                 | Some nd \<Rightarrow>
                     if \<not> end' (flds nd) then
                       (case findClosestUnvisitedNode (root t) nr visited qc i of
                          Inl e \<Rightarrow> Exit (Panicked e)
                        | Inr (None, start', i') \<Rightarrow> Exit (Broke None pv)
                        | Inr (Some u, start', i') \<Rightarrow>
                            (case takeUnvisited (root t) q u start' i' pv of
                               Inl e \<Rightarrow> Exit (Panicked e)
                             | Inr pv' \<Rightarrow> Exit (Broke (Some u) pv')))
                     else Exit (Broke n pv)))
         else Exit (Broke n pv))
      else Continue (State n (i + 1) (i + 1) pv visited))"

text \<open>
  The last branch of the segment resolution: no child matched. With
  \<open>searchUnvisitedParams\<close> an unvisited parameter node of an ancestor is tried, else the
  closest wildcard of an ancestor, else the search returns nil.
\<close>

definition noChild :: "Trie \<Rightarrow> string \<Rightarrow> string \<Rightarrow> ref \<Rightarrow> nat \<Rightarrow> nat \<Rightarrow> pslice \<Rightarrow> ptr list \<Rightarrow> step" where
  "noChild t q qc nr start i pv visited =
     (case (if searchUnvisitedParams t then findClosestUnvisitedNode (root t) nr visited qc i
            else Inr (None, start, i)) of
        Inl e \<Rightarrow> Exit (Panicked e)
      | Inr (Some u, start', i') \<Rightarrow>
          (case takeUnvisited (root t) q u start' i' pv of
             Inl e \<Rightarrow> Exit (Panicked e)
           | Inr pv' \<Rightarrow> afterSegment t q qc (Some u) i' pv' (Some u # visited))
      | Inr (None, start', i') \<Rightarrow>
          (case wildcardFallback (root t) nr q of
             Inl e \<Rightarrow> Exit (Panicked e)
           | Inr (Some (w, calls)) \<Rightarrow> Exit (Returned (Some w) calls)
           | Inr None \<Rightarrow> Exit (Returned None [])))"

text \<open>One round of the \<open>for\<close> loop of \<open>Search\<close>.\<close>

definition search_step :: "Trie \<Rightarrow> string \<Rightarrow> string \<Rightarrow> state \<Rightarrow> step" where
  "search_step t q qc st =
     (case st of State n start i pv visited \<Rightarrow>
        if i > length q then Exit (Panicked IndexOutOfRange)
        else if i = length q \<or> q ! i = pathSepB then
          (case slice qc start i of Inl e \<Rightarrow> Exit (Panicked e)
           | Inr s \<Rightarrow>
          (case n of None \<Rightarrow> Exit (Panicked NilDereference)
           | Some nr \<Rightarrow>
          (case deref (root t) nr of None \<Rightarrow> Exit (Panicked NilDereference)
           | Some nd \<Rightarrow>
          (case getChildOf nd s of
             Some c \<Rightarrow> afterSegment t q qc (Some (nr @ [s])) i pv visited
           | None \<Rightarrow>
          (case getPrefixParamChild (root t) nr s of Inl e \<Rightarrow> Exit (Panicked e)
           | Inr (Some pc) \<Rightarrow>
               (case capture q start i pv of Inl e \<Rightarrow> Exit (Panicked e)
                | Inr pv' \<Rightarrow> afterSegment t q qc (Some pc) i pv' (Some pc # visited))
           | Inr None \<Rightarrow>
          (case getSuffixParamChild (root t) nr s of Inl e \<Rightarrow> Exit (Panicked e)
           | Inr (Some sc) \<Rightarrow>
               (case capture q start i pv of Inl e \<Rightarrow> Exit (Panicked e)
                | Inr pv' \<Rightarrow> afterSegment t q qc (Some sc) i pv' (Some sc # visited))
           | Inr None \<Rightarrow>
               if childNamedParameter (flds nd) then
                 (case getChild (root t) nr ParamStart of Inl e \<Rightarrow> Exit (Panicked e)
                  | Inr nc \<Rightarrow>
                      (case capture q start i pv of Inl e \<Rightarrow> Exit (Panicked e)
                       | Inr pv' \<Rightarrow> afterSegment t q qc nc i pv' (nc # visited)))
               else if childWildcardParameter (flds nd) then
                 (case getChild (root t) nr WildcardParamStart of Inl e \<Rightarrow> Exit (Panicked e)
                  | Inr wc \<Rightarrow>
                      (case sliceFrom q start of Inl e \<Rightarrow> Exit (Panicked e)
                       | Inr rest \<Rightarrow> Exit (Broke wc (appendParameterValue pv rest))))
               else noChild t q qc nr start i pv visited))))))
        else Continue (State n start (i + 1) pv visited))"

text \<open>
  The loop. It ends because a round either moves \<open>i\<close> forward, towards the end of the
  request, or goes back to a node that was not yet visited and marks it, and the nodes of
  the trie are finitely many.
\<close>

fun refsOf :: "node \<Rightarrow> ref list" where
  "refsOf (Node f cs) = [] # concat (map (\<lambda>(k, c). map ((#) k) (refsOf c)) cs)"

definition unvisitedCount :: "Trie \<Rightarrow> ptr list \<Rightarrow> nat" where
  "unvisitedCount t visited = card (Some ` set (refsOf (root t)) - set visited)"

function search_loop :: "Trie \<Rightarrow> string \<Rightarrow> string \<Rightarrow> state \<Rightarrow> exit" where
  "search_loop t q qc st =
     (case search_step t q qc st of
        Continue st' \<Rightarrow> search_loop t q qc st'
      | Exit e \<Rightarrow> e)"
  by pat_completeness auto

lemma deref_snoc:
  "deref r (n @ [k]) = (case deref r n of None \<Rightarrow> None | Some nd \<Rightarrow> getChildOf nd k)"
  by (induction n arbitrary: r) (auto simp: getChildOf_def split: option.splits)

lemma deref_in_refsOf: "deref r n = Some nd \<Longrightarrow> n \<in> set (refsOf r)"
proof (induction n arbitrary: r)
  case Nil
  show ?case by (cases r) simp
next
  case (Cons k ks)
  obtain f cs where r: "r = Node f cs" by (cases r)
  from Cons.prems r obtain c where c: "map_of cs k = Some c" and d: "deref c ks = Some nd"
    by (auto split: option.splits)
  from c have "(k, c) \<in> set cs" by (rule map_of_SomeD)
  moreover from d have "ks \<in> set (refsOf c)" by (rule Cons.IH)
  ultimately show ?case using r by force
qed

lemma deref_valid: "deref r n \<noteq> None \<Longrightarrow> n \<in> set (refsOf r)"
  using deref_in_refsOf by blast

lemma getChild_valid:
  "getChild r n s = Inr (Some u) \<Longrightarrow> u \<in> set (refsOf r)"
  by (auto simp: getChild_def deref_snoc split: option.splits intro!: deref_valid)

lemma prefixProbe_child: "prefixProbe nd s ls = Some k \<Longrightarrow> getChildOf nd k \<noteq> None"
  by (induction ls) (auto split: if_splits option.splits)

lemma suffixProbe_child: "suffixProbe nd s ls = Some k \<Longrightarrow> getChildOf nd k \<noteq> None"
  by (induction ls) (auto split: if_splits option.splits)

lemma getPrefixParamChild_valid:
  "getPrefixParamChild r n s = Inr (Some u) \<Longrightarrow> u \<in> set (refsOf r)"
  by (auto simp: getPrefixParamChild_def deref_snoc split: option.splits if_splits
      dest!: prefixProbe_child intro!: deref_valid)

lemma getSuffixParamChild_valid:
  "getSuffixParamChild r n s = Inr (Some u) \<Longrightarrow> u \<in> set (refsOf r)"
  by (auto simp: getSuffixParamChild_def deref_snoc split: option.splits if_splits
      dest!: suffixProbe_child intro!: deref_valid)

lemma climbUnvisited_fresh:
  "climbUnvisited r p visited path start i = Inr (Some u, start', i') \<Longrightarrow>
     Some u \<notin> set visited \<and> u \<in> set (refsOf r)"
proof (induction r p visited path start i rule: climbUnvisited.induct)
  case (1 r visited path start i)
  then show ?case by simp
next
  case (2 r n visited path start i)
  show ?case
    using "2.prems" "2.IH"
    by (auto simp: andThen_def Let_def split: if_splits sum.splits option.splits
        dest: getChild_valid getPrefixParamChild_valid getSuffixParamChild_valid)
qed

lemma unvisitedCount_mono: "unvisitedCount t (x # visited) \<le> unvisitedCount t visited"
  unfolding unvisitedCount_def by (rule card_mono) auto

lemma unvisitedCount_less:
  assumes "Some u \<notin> set visited" and "u \<in> set (refsOf (root t))"
  shows "unvisitedCount t (Some u # visited) < unvisitedCount t visited"
  unfolding unvisitedCount_def
proof (rule psubset_card_mono)
  show "finite (Some ` set (refsOf (root t)) - set visited)" by simp
  show "Some ` set (refsOf (root t)) - set (Some u # visited)
          \<subset> Some ` set (refsOf (root t)) - set visited"
    using assms by auto
qed

lemma afterSegment_Continue:
  "afterSegment t q qc n i pv visited = Continue st' \<Longrightarrow>
     i \<noteq> length q \<and> st' = State n (i + 1) (i + 1) pv visited"
  by (auto simp: afterSegment_def split: if_splits option.splits sum.splits prod.splits)

lemma findClosestUnvisitedNode_fresh:
  "findClosestUnvisitedNode r n visited path i = Inr (Some u, start', i') \<Longrightarrow>
     Some u \<notin> set visited \<and> u \<in> set (refsOf r)"
  unfolding findClosestUnvisitedNode_def by (rule climbUnvisited_fresh)

lemma noChild_Continue:
  assumes "noChild t q qc nr start i pv visited = Continue st'"
  shows "unvisitedCount t (visitedNodes st') < unvisitedCount t visited"
proof -
  from assms obtain u start' i' pv' where
    f: "findClosestUnvisitedNode (root t) nr visited qc i = Inr (Some u, start', i')" and
    a: "afterSegment t q qc (Some u) i' pv' (Some u # visited) = Continue st'"
    by (auto simp: noChild_def split: if_splits option.splits sum.splits prod.splits)
  from a have "visitedNodes st' = Some u # visited"
    by (auto dest: afterSegment_Continue)
  with findClosestUnvisitedNode_fresh [OF f] show ?thesis
    by (simp add: unvisitedCount_less)
qed

lemma search_step_Continue:
  assumes "search_step t q qc st = Continue st'"
  shows "unvisitedCount t (visitedNodes st') < unvisitedCount t (visitedNodes st) \<or>
         (unvisitedCount t (visitedNodes st') \<le> unvisitedCount t (visitedNodes st) \<and>
          ix st < length q \<and> ix st' = ix st + 1)"
proof (cases st)
  case (State n start i pv visited)
  show ?thesis
    using assms unfolding State search_step_def
    by (auto simp: unvisitedCount_mono split: if_splits option.splits sum.splits
        dest!: afterSegment_Continue noChild_Continue)
qed

termination search_loop
proof (relation "inv_image (less_than <*lex*> less_than)
         (\<lambda>(t, q, qc, st). (unvisitedCount t (visitedNodes st), length q - ix st))")
  show "wf (inv_image (less_than <*lex*> less_than)
         (\<lambda>(t, q, qc, st). (unvisitedCount t (visitedNodes st), length q - ix st)))"
    by (intro wf_inv_image wf_lex_prod wf_less_than)
next
  fix t q qc st st'
  assume "search_step t q qc st = Continue st'"
  from search_step_Continue [OF this]
  show "((t, q, qc, st'), (t, q, qc, st)) \<in> inv_image (less_than <*lex*> less_than)
         (\<lambda>(t, q, qc, st). (unvisitedCount t (visitedNodes st), length q - ix st))"
    by auto
qed

lemmas [simp del] = search_loop.simps

text \<open>
  The loop over \<open>paramValues\<close> at the end of \<open>Search\<close>: the value at index \<open>i\<close> is set
  under \<open>n.paramKeys[i]\<close> when there is such a key.
\<close>

fun emitFrom :: "nat \<Rightarrow> string list \<Rightarrow> string list \<Rightarrow> sets" where
  "emitFrom i ks [] = []"
| "emitFrom i ks (paramValue # rest) =
     (if length ks > i then [(ks ! i, paramValue)] else []) @ emitFrom (i + 1) ks rest"

text \<open>The root wildcard, the last resort: \<open>params.Set(n.paramKeys[0], q[1:])\<close>.\<close>

definition rootWildcard :: "Trie \<Rightarrow> string \<Rightarrow> panic + (ptr \<times> sets)" where
  "rootWildcard t q =
     (if hasRootWildcard t then
        andThen (getChild (root t) [] WildcardParamStart) (\<lambda>n.
          case n of None \<Rightarrow> Inl NilDereference
          | Some nr \<Rightarrow>
              (case deref (root t) nr of None \<Rightarrow> Inl NilDereference
               | Some nd \<Rightarrow>
                   (case paramKeys (flds nd) of [] \<Rightarrow> Inl IndexOutOfRange
                    | k # ks \<Rightarrow> andThen (sliceFrom q 1) (\<lambda>v. Inr (Some nr, [(k, v)])))))
      else Inr (None, []))"

text \<open>What \<open>Search\<close> does after the loop, with the node and the values the loop left.\<close>

definition afterLoop :: "Trie \<Rightarrow> string \<Rightarrow> ptr \<Rightarrow> pslice \<Rightarrow> panic + (ptr \<times> sets)" where
  "afterLoop t q n pv =
     (case n of None \<Rightarrow> rootWildcard t q
      | Some nr \<Rightarrow>
          (case deref (root t) nr of None \<Rightarrow> Inl NilDereference
           | Some nd \<Rightarrow>
               if \<not> end' (flds nd) then
                 (case wildcardFallback (root t) nr q of
                    Inl e \<Rightarrow> Inl e
                  | Inr (Some (w, calls)) \<Rightarrow> Inr (Some w, calls)
                  | Inr None \<Rightarrow> rootWildcard t q)
               else Inr (Some nr, emitFrom 0 (paramKeys (flds nd)) (elems pv))))"

text \<open>
  \<open>Search\<close>: the node returned (nil is \<open>None\<close>) and the calls of \<open>params.Set\<close> made, or the
  panic.
\<close>

definition Search :: "Trie \<Rightarrow> string \<Rightarrow> panic + (ptr \<times> sets)" where
  "Search t q =
     (if length q = 0 \<or> (length q = 1 \<and> q ! 0 = pathSepB) then
        (if hasRootSlash t then andThen (getChild (root t) [] pathSep) (\<lambda>n. Inr (n, []))
         else if hasRootWildcard t then
           andThen (getChild (root t) [] WildcardParamStart) (\<lambda>n. Inr (n, []))
         else Inr (None, []))
      else
        (let qc = (if caseInsensitive t then strings_ToLower q else q)
         in case search_loop t q qc (State (Some []) 1 1 nilSlice []) of
              Panicked e \<Rightarrow> Inl e
            | Returned n calls \<Rightarrow> Inr (n, calls)
            | Broke n pv \<Rightarrow> afterLoop t q n pv))"


section \<open>Scenarios\<close>

text \<open>
  A scenario builds a trie from patterns and searches one request. Its report is the
  pointer returned, the calls of \<open>params.Set\<close>, and, of the node returned, whether it is
  terminal, its \<open>key\<close> (the pattern that ends there) and its \<open>paramKeys\<close>.
\<close>

definition describe :: "Trie \<Rightarrow> ptr \<Rightarrow> (bool \<times> string \<times> string list) option" where
  "describe t n =
     (case n of None \<Rightarrow> None
      | Some nr \<Rightarrow>
          map_option (\<lambda>nd. (end' (flds nd), key (flds nd), paramKeys (flds nd))) (deref (root t) nr))"

definition scenario :: "Trie \<Rightarrow> string list \<Rightarrow> string \<Rightarrow> panic + (ptr \<times> sets \<times> (bool \<times> string \<times> string list) option)" where
  "scenario t0 patterns q =
     andThen (insertAll t0 patterns) (\<lambda>(t, ns).
       andThen (Search t q) (\<lambda>(n, calls). Inr (n, calls, describe t n)))"

text \<open>The length tables of the node that a pointer refers to.\<close>

definition prefixLengthsAt :: "Trie \<Rightarrow> ref \<Rightarrow> nat list" where
  "prefixLengthsAt t n = (case deref (root t) n of None \<Rightarrow> [] | Some nd \<Rightarrow> childPrefixLengths (flds nd))"

definition suffixLengthsAt :: "Trie \<Rightarrow> ref \<Rightarrow> nat list" where
  "suffixLengthsAt t n = (case deref (root t) n of None \<Rightarrow> [] | Some nd \<Rightarrow> childSuffixLengths (flds nd))"


text \<open>The trie that insertions into \<open>t0\<close> build (\<open>t0\<close> itself if one of them panics).\<close>

definition trieOf :: "Trie \<Rightarrow> string list \<Rightarrow> Trie" where
  "trieOf t0 patterns = (case insertAll t0 patterns of Inl e \<Rightarrow> t0 | Inr (t, ns) \<Rightarrow> t)"

text \<open>The \<open>paramCount\<close> of the node that a pointer refers to.\<close>

definition paramCountAt :: "Trie \<Rightarrow> ref \<Rightarrow> nat" where
  "paramCountAt t n = (case deref (root t) n of None \<Rightarrow> 0 | Some nd \<Rightarrow> paramCount (flds nd))"

text \<open>The keys of the child map of a node.\<close>

definition keysOf :: "node \<Rightarrow> string set" where
  "keysOf nd = fst ` set (children nd)"

text \<open>
  A pattern registers a root wildcard when its first segment starts with \<open>*\<close>.
\<close>

definition rootWildcardPattern :: "string \<Rightarrow> bool" where
  "rootWildcardPattern p =
     (case slowPathSplit p of Inr (s # rest) \<Rightarrow> take 1 s = WildcardParamStart | _ \<Rightarrow> False)"

text \<open>
  The root has the children that the flags \<open>hasRootSlash\<close> and \<open>hasRootWildcard\<close>
  announce.
\<close>

definition rootChildrenOK :: "Trie \<Rightarrow> bool" where
  "rootChildrenOK t \<longleftrightarrow>
     (hasRootSlash t \<longrightarrow> pathSep \<in> keysOf (root t)) \<and>
     (hasRootWildcard t \<longrightarrow> WildcardParamStart \<in> keysOf (root t))"

text \<open>
  A segment that the lexer takes as static: not empty, without a separator, its first
  byte neither \<open>:\<close> nor \<open>*\<close>, and without the tokens \<open>+:\<close> and \<open>-:\<close>.
\<close>

definition staticSegment :: "string \<Rightarrow> bool" where
  "staticSegment s \<longleftrightarrow>
     s \<noteq> [] \<and> pathSepB \<notin> set s \<and> hd s \<noteq> CHR '':'' \<and> hd s \<noteq> CHR ''*''
     \<and> \<not> isPrefixParam s \<and> \<not> isSuffixParam s"

text \<open>The pattern \<open>/s1/s2/.../sk\<close> of the segments \<open>s1\<close> to \<open>sk\<close>.\<close>

definition joinPath :: "string list \<Rightarrow> string" where
  "joinPath segs = concat (map ((#) pathSepB) segs)"

text \<open>What insertion and search do to a key in the two modes of \<open>caseInsensitive\<close>.\<close>

definition lowerIf :: "bool \<Rightarrow> string \<Rightarrow> string" where
  "lowerIf ci s = (if ci then strings_ToLower s else s)"

definition lowerByteIf :: "bool \<Rightarrow> char \<Rightarrow> char" where
  "lowerByteIf ci c = (if ci then toLowerByte c else c)"

section \<open>A trailing separator of a pattern\<close>

lemma slowPathSplit_trailing_sep:
  assumes "p \<noteq> []" and "last p \<noteq> pathSepB"
  shows "slowPathSplit (p @ pathSep) = slowPathSplit p"
proof -
  from assms have "p \<noteq> pathSep" by auto
  moreover from assms have "p @ pathSep \<noteq> pathSep" by simp
  ultimately show ?thesis using assms by (simp add: slowPathSplit_def butlast_append)
qed

lemma modify_modify: "modify f n (modify g n r) = modify (f \<circ> g) n r"
proof (induction n arbitrary: r)
  case Nil
  show ?case by simp
next
  case (Cons k ks)
  show ?case by (cases r) (auto simp: Cons.IH)
qed

lemma insert_trailing_sep:
  assumes "p \<noteq> []" and "last p \<noteq> pathSepB" and "Trie_insert t p = Inr (t1, n)"
  shows "Trie_insert t (p @ pathSep)
           = Inr (t1\<lparr>root := modify (setFields (\<lambda>f. f\<lparr>key := p @ pathSep,
                        staticKey := resolveStaticPart (p @ pathSep)\<rparr>)) n (root t1)\<rparr>, n)"
proof -
  from assms have ne: "p \<noteq> pathSep" "p @ pathSep \<noteq> pathSep" by auto
  from assms(3) ne obtain input t' pks where
    sp: "slowPathSplit p = Inr input" and
    lp: "insert_loop t [] [] 0 input = Inr (t', n, pks)" and
    t1: "t1 = t'\<lparr>root := modify (setFields (\<lambda>f. f\<lparr>paramKeys := pks, key := p,
                        staticKey := resolveStaticPart p, end' := True\<rparr>)) n (root t')\<rparr>"
    by (auto simp: Trie_insert_def andThen_def split: sum.splits)
  have sf: "setFields (\<lambda>f. f\<lparr>key := p @ pathSep, staticKey := resolveStaticPart (p @ pathSep)\<rparr>)
              \<circ> setFields (\<lambda>f. f\<lparr>paramKeys := pks, key := p, staticKey := resolveStaticPart p, end' := True\<rparr>)
            = setFields (\<lambda>f. f\<lparr>paramKeys := pks, key := p @ pathSep,
                 staticKey := resolveStaticPart (p @ pathSep), end' := True\<rparr>)"
    by (auto simp: setFields_def fun_eq_iff)
  from sp assms have "slowPathSplit (p @ pathSep) = Inr input"
    by (simp add: slowPathSplit_trailing_sep)
  with lp ne show ?thesis
    by (simp add: Trie_insert_def andThen_def t1 modify_modify sf)
qed

section \<open>The root after insertions\<close>

lemma getChildOf_keysOf: "getChildOf nd s \<noteq> None \<longleftrightarrow> s \<in> keysOf nd"
  unfolding getChildOf_def keysOf_def using map_of_eq_None_iff [of "children nd" s] by auto

lemma keysOf_setFields [simp]: "keysOf (setFields g nd) = keysOf nd"
  by (simp add: keysOf_def setFields_def)

lemma keysOf_addChildOf: "keysOf (addChildOf s c nd) = insert s (keysOf nd)"
proof (cases "map_of (children nd) s")
  case None
  then show ?thesis by (simp add: keysOf_def addChildOf_def)
next
  case (Some c')
  then have "(s, c') \<in> set (children nd)" by (rule map_of_SomeD)
  then have "s \<in> keysOf nd" unfolding keysOf_def by force
  with Some show ?thesis by (auto simp: addChildOf_def)
qed

lemma keysOf_modify:
  assumes "\<And>nd. keysOf nd \<subseteq> keysOf (f nd)"
  shows "keysOf r \<subseteq> keysOf (modify f n r)"
proof (cases n)
  case Nil
  with assms show ?thesis by simp
next
  case (Cons k ks)
  have "fst ` set (map (\<lambda>(k', c). if k' = k then (k', modify f ks c) else (k', c)) (children r))
          = fst ` set (children r)"
    by (force simp: image_iff split: prod.splits if_splits)
  with Cons show ?thesis by (simp add: keysOf_def)
qed

lemma keysOf_modify_setFields [simp]: "keysOf (modify (setFields g) n r) = keysOf r"
proof (cases n)
  case Nil
  then show ?thesis by simp
next
  case (Cons k ks)
  have "fst ` set (map (\<lambda>(k', c). if k' = k then (k', modify (setFields g) ks c) else (k', c)) (children r))
          = fst ` set (children r)"
    by (force simp: image_iff split: prod.splits if_splits)
  with Cons show ?thesis by (simp add: keysOf_def)
qed

lemma keysOf_modify_addChildOf: "keysOf r \<subseteq> keysOf (modify (addChildOf s c) n r)"
  by (rule keysOf_modify) (auto simp: keysOf_addChildOf)

lemma not_token_in_sep: "\<not> isPrefixParam pathSep" "\<not> isSuffixParam pathSep"
  by (simp_all add: isPrefixParam_def isSuffixParam_def strings_Contains_def)

lemma classify_root_facts:
  assumes "classify t n pks s = (t', s', pks')"
  shows "hasRootSlash t' = hasRootSlash t"
    and "caseInsensitive t' = caseInsensitive t"
    and "hasRootWildcard t' = (hasRootWildcard t \<or> (n = [] \<and> hd s = CHR ''*''))"
    and "keysOf (root t') = keysOf (root t)"
    and "hd s = CHR ''*'' \<Longrightarrow> s' = WildcardParamStart"
    and "s = pathSep \<Longrightarrow> s' = pathSep"
  using assms
  by (auto simp: classify_def Let_def not_token_in_sep split: if_splits)


lemma ToLower_sentinels [simp]:
  "strings_ToLower WildcardParamStart = WildcardParamStart"
  "strings_ToLower pathSep = pathSep"
  by (simp_all add: strings_ToLower_def toLowerByte_def)

lemma insert_loop_root_facts:
  assumes "insert_loop t n pks i segs = Inr (t', n', pks')"
  shows "hasRootSlash t' = hasRootSlash t
     \<and> hasRootWildcard t' = (hasRootWildcard t \<or> (n = [] \<and> segs \<noteq> [] \<and> hd (hd segs) = CHR ''*''))
     \<and> keysOf (root t) \<subseteq> keysOf (root t')
     \<and> (n = [] \<and> segs \<noteq> [] \<and> hd (hd segs) = CHR ''*'' \<longrightarrow> WildcardParamStart \<in> keysOf (root t'))
     \<and> (n = [] \<and> segs = [pathSep] \<longrightarrow> pathSep \<in> keysOf (root t'))"
  using assms
proof (induction segs arbitrary: t n pks i)
  case Nil
  then show ?case by simp
next
  case (Cons s segs)
  let ?t1 = "t\<lparr>root := modify (setFields (\<lambda>f. f\<lparr>pathIndex := i + 1, paramCount := length pks\<rparr>)) n (root t)\<rparr>"
  obtain t2 s' pks2 where c: "classify ?t1 n pks s = (t2, s', pks2)"
    by (cases "classify ?t1 n pks s") auto
  let ?s = "if caseInsensitive t2 then strings_ToLower s' else s'"
  let ?t3 = "t2\<lparr>root := modify (addChildOf ?s NewNode) n (root t2)\<rparr>"
  from Cons.prems c have ne: "s \<noteq> []" and
    r: "insert_loop ?t3 (n @ [?s]) pks2 (i + 1) segs = Inr (t', n', pks')"
    by (auto simp: Let_def split: if_splits)
  note ih = Cons.IH [OF r]
  note cf = classify_root_facts [OF c]
  from ih cf have slash: "hasRootSlash t' = hasRootSlash t" by simp
  from ih cf have wild: "hasRootWildcard t' = (hasRootWildcard t \<or> (n = [] \<and> hd s = CHR ''*''))"
    by simp
  have "keysOf (root t) = keysOf (root t2)" using cf by simp
  also have "\<dots> \<subseteq> keysOf (root ?t3)" by (simp add: keysOf_modify_addChildOf)
  also have "\<dots> \<subseteq> keysOf (root t')" using ih by simp
  finally have keys: "keysOf (root t) \<subseteq> keysOf (root t')" .
  have first: "?s \<in> keysOf (root t')" if "n = []"
  proof -
    from that have "?s \<in> keysOf (root ?t3)" by (simp add: keysOf_addChildOf)
    with ih show ?thesis by blast
  qed
  have star: "WildcardParamStart \<in> keysOf (root t')" if "n = []" and "hd s = CHR ''*''"
    using first [OF that(1)] cf(5) [OF that(2)] by (simp split: if_splits)
  have sep: "pathSep \<in> keysOf (root t')" if "n = []" and "s = pathSep"
    using first [OF that(1)] cf(6) [OF that(2)] by (simp split: if_splits)
  from slash wild keys star sep show ?case by simp
qed

lemma Trie_insert_root_facts:
  assumes "Trie_insert t k = Inr (t', n)"
  shows "hasRootSlash t' = (hasRootSlash t \<or> k = pathSep)"
    and "hasRootWildcard t' = (hasRootWildcard t \<or> rootWildcardPattern k)"
    and "keysOf (root t) \<subseteq> keysOf (root t')"
    and "k = pathSep \<Longrightarrow> pathSep \<in> keysOf (root t')"
    and "rootWildcardPattern k \<Longrightarrow> WildcardParamStart \<in> keysOf (root t')"
proof -
  let ?t0 = "if k = pathSep then t\<lparr>hasRootSlash := True\<rparr> else t"
  from assms obtain input t1 pks where
    sp: "slowPathSplit k = Inr input" and
    lp: "insert_loop ?t0 [] [] 0 input = Inr (t1, n, pks)" and
    t': "t' = t1\<lparr>root := modify (setFields (\<lambda>f. f\<lparr>paramKeys := pks, key := k,
                        staticKey := resolveStaticPart k, end' := True\<rparr>)) n (root t1)\<rparr>"
    by (auto simp: Trie_insert_def andThen_def Let_def split: sum.splits)
  note f = insert_loop_root_facts [OF lp]
  have nonempty: "s \<noteq> []" if "input = s # rest" for s rest
    using lp that by (auto split: if_splits)
  have rw: "rootWildcardPattern k \<longleftrightarrow> (input \<noteq> [] \<and> hd (hd input) = CHR ''*'')"
  proof (cases input)
    case Nil
    with sp show ?thesis by (simp add: rootWildcardPattern_def)
  next
    case (Cons s rest)
    with nonempty obtain c cs where "s = c # cs" by (cases s) auto
    with Cons sp show ?thesis by (simp add: rootWildcardPattern_def)
  qed
  have inp: "input = [pathSep]" if "k = pathSep"
    using sp that by (simp add: slowPathSplit_def)
  show "hasRootSlash t' = (hasRootSlash t \<or> k = pathSep)" using f t' by simp
  show "hasRootWildcard t' = (hasRootWildcard t \<or> rootWildcardPattern k)" using f t' rw by auto
  show "keysOf (root t) \<subseteq> keysOf (root t')" using f t' by (auto split: if_splits)
  show "pathSep \<in> keysOf (root t')" if "k = pathSep" using f t' inp [OF that] by simp
  show "WildcardParamStart \<in> keysOf (root t')" if "rootWildcardPattern k"
    using f t' rw that by simp
qed

lemma insertAll_root_facts:
  assumes "insertAll t0 ps = Inr (t, ns)" and "rootChildrenOK t0"
  shows "rootChildrenOK t
     \<and> hasRootSlash t = (hasRootSlash t0 \<or> pathSep \<in> set ps)
     \<and> hasRootWildcard t = (hasRootWildcard t0 \<or> (\<exists>p \<in> set ps. rootWildcardPattern p))"
  using assms
proof (induction ps arbitrary: t0 ns)
  case Nil
  then show ?case by simp
next
  case (Cons k ks)
  from Cons.prems(1) obtain t1 n ns' where
    i1: "Trie_insert t0 k = Inr (t1, n)" and
    i2: "insertAll t1 ks = Inr (t, ns')"
    by (auto split: sum.splits prod.splits)
  note f = Trie_insert_root_facts [OF i1]
  from Cons.prems(2) f have ok1: "rootChildrenOK t1"
    unfolding rootChildrenOK_def by blast
  from Cons.IH [OF i2 ok1] f(1,2) show ?case by auto
qed

lemma Search_fastPath:
  assumes "rootChildrenOK t" and "q = [] \<or> q = pathSep"
  shows "Search t q =
           Inr (if hasRootSlash t then (Some [pathSep], [])
                else if hasRootWildcard t then (Some [WildcardParamStart], [])
                else (None, []))"
proof -
  have g: "getChild (root t) [] s = Inr (Some [s])" if "s \<in> keysOf (root t)" for s
    using that getChildOf_keysOf [of "root t" s]
    by (auto simp: getChild_def split: option.splits)
  from assms(2) have fp: "length q = 0 \<or> (length q = 1 \<and> q ! 0 = pathSepB)" by auto
  show ?thesis
    using assms(1) g unfolding Search_def rootChildrenOK_def if_P [OF fp]
    by (auto simp: andThen_def)
qed

section \<open>Static patterns\<close>

lemma joinPath_simps [simp]:
  "joinPath [] = []"
  "joinPath (s # segs) = pathSepB # s @ joinPath segs"
  by (simp_all add: joinPath_def)

lemma joinPath_append: "joinPath (xs @ ys) = joinPath xs @ joinPath ys"
  by (simp add: joinPath_def)

lemma strings_Split_nonempty: "strings_Split s sep \<noteq> []"
  by (induction s) (auto split: list.splits)

lemma strings_Split_append:
  "sep \<notin> set s \<Longrightarrow>
     strings_Split (s @ r) sep = (s @ hd (strings_Split r sep)) # tl (strings_Split r sep)"
  using strings_Split_nonempty [of r sep]
  by (induction s) (auto split: list.splits)

lemma strings_Split_joinPath:
  "\<forall>s \<in> set segs. pathSepB \<notin> set s \<Longrightarrow> strings_Split (joinPath segs) pathSepB = [] # segs"
  by (induction segs) (simp_all add: strings_Split_append)

lemma last_joinPath:
  assumes "segs \<noteq> []" and "\<forall>s \<in> set segs. s \<noteq> [] \<and> pathSepB \<notin> set s"
  shows "last (joinPath segs) \<noteq> pathSepB"
proof -
  from assms(1) obtain xs s where segs: "segs = xs @ [s]" by (cases segs rule: rev_cases) auto
  with assms(2) have "s \<noteq> []" "pathSepB \<notin> set s" by auto
  then have "last s \<noteq> pathSepB" using last_in_set by metis
  with segs \<open>s \<noteq> []\<close> show ?thesis by (simp add: joinPath_append)
qed

lemma slowPathSplit_joinPath:
  assumes "segs \<noteq> []" and "\<forall>s \<in> set segs. s \<noteq> [] \<and> pathSepB \<notin> set s"
  shows "slowPathSplit (joinPath segs) = Inr segs"
proof -
  from assms obtain s rest where segs: "segs = s # rest" and "s \<noteq> []" by (cases segs) auto
  then have ne: "joinPath segs \<noteq> pathSep" "joinPath segs \<noteq> []" by (cases s; simp)+
  from assms have "strings_Split (joinPath segs) pathSepB = [] # segs"
    by (simp add: strings_Split_joinPath)
  with ne last_joinPath [OF assms] show ?thesis by (simp add: slowPathSplit_def)
qed

lemma map_of_map_at:
  "map_of (map (\<lambda>(k', c). if k' = k then (k', g c) else (k', c)) cs) x
     = (if x = k then map_option g (map_of cs k) else map_of cs x)"
  by (induction cs) auto

lemma deref_modify: "deref (modify f n r) n = map_option f (deref r n)"
proof (induction n arbitrary: r)
  case Nil
  show ?case by simp
next
  case (Cons k ks)
  show ?case by (cases "map_of (children r) k") (simp_all add: map_of_map_at Cons.IH)
qed

lemma deref_modify_addChild:
  assumes "deref r n \<noteq> None"
  shows "deref (modify (addChildOf s c) n r) (n @ [s]) \<noteq> None"
proof -
  from assms obtain nd where nd: "deref r n = Some nd" by auto
  have "s \<in> keysOf (addChildOf s c nd)" by (simp add: keysOf_addChildOf)
  then have "getChildOf (addChildOf s c nd) s \<noteq> None" by (simp only: getChildOf_keysOf)
  with nd show ?thesis by (simp add: deref_snoc deref_modify)
qed

lemma classify_static: "staticSegment s \<Longrightarrow> classify t n pks s = (t, s, pks)"
  by (simp add: classify_def staticSegment_def Let_def)

lemma insert_loop_static:
  assumes "\<forall>s \<in> set segs. staticSegment s" and "deref (root t) n \<noteq> None"
  shows "\<exists>t'. insert_loop t n pks i segs
              = Inr (t', n @ map (lowerIf (caseInsensitive t)) segs, pks)
           \<and> deref (root t') (n @ map (lowerIf (caseInsensitive t)) segs) \<noteq> None
           \<and> caseInsensitive t' = caseInsensitive t
           \<and> searchUnvisitedParams t' = searchUnvisitedParams t"
  using assms
proof (induction segs arbitrary: t n i)
  case Nil
  then show ?case by simp
next
  case (Cons s segs)
  let ?t1 = "t\<lparr>root := modify (setFields (\<lambda>f. f\<lparr>pathIndex := i + 1, paramCount := length pks\<rparr>)) n (root t)\<rparr>"
  let ?s = "lowerIf (caseInsensitive t) s"
  let ?t3 = "?t1\<lparr>root := modify (addChildOf ?s NewNode) n (root ?t1)\<rparr>"
  from Cons.prems have st: "staticSegment s" and rest: "\<forall>s \<in> set segs. staticSegment s" by simp_all
  from st have ne: "s \<noteq> []" by (simp add: staticSegment_def)
  from Cons.prems(2) have "deref (root ?t1) n \<noteq> None" by (simp add: deref_modify)
  then have d3: "deref (root ?t3) (n @ [?s]) \<noteq> None" by (simp add: deref_modify_addChild)
  from Cons.IH [OF rest d3, of "i + 1"] obtain t' where
    r: "insert_loop ?t3 (n @ [?s]) pks (i + 1) segs
          = Inr (t', (n @ [?s]) @ map (lowerIf (caseInsensitive ?t3)) segs, pks)" and
    d: "deref (root t') ((n @ [?s]) @ map (lowerIf (caseInsensitive ?t3)) segs) \<noteq> None" and
    f: "caseInsensitive t' = caseInsensitive ?t3" "searchUnvisitedParams t' = searchUnvisitedParams ?t3"
    by blast
  have step: "insert_loop t n pks i (s # segs) = insert_loop ?t3 (n @ [?s]) pks (i + 1) segs"
    using ne by (simp add: classify_static [OF st] lowerIf_def Let_def)
  from r d f show ?case unfolding step by simp
qed


lemma lowerIf_map: "lowerIf ci s = map (lowerByteIf ci) s"
  by (cases ci) (simp_all add: lowerIf_def lowerByteIf_def [abs_def] strings_ToLower_def)

lemma Trie_insert_static:
  assumes "segs \<noteq> []" and "\<forall>s \<in> set segs. staticSegment s"
  shows "\<exists>t' nd. Trie_insert t (joinPath segs)
                 = Inr (t', map (lowerIf (caseInsensitive t)) segs)
           \<and> deref (root t') (map (lowerIf (caseInsensitive t)) segs) = Some nd
           \<and> end' (flds nd) \<and> key (flds nd) = joinPath segs
           \<and> caseInsensitive t' = caseInsensitive t
           \<and> searchUnvisitedParams t' = searchUnvisitedParams t"
proof -
  from assms(2) have ns: "\<forall>s \<in> set segs. s \<noteq> [] \<and> pathSepB \<notin> set s"
    by (simp add: staticSegment_def)
  have sp: "slowPathSplit (joinPath segs) = Inr segs"
    using assms(1) ns by (rule slowPathSplit_joinPath)
  from assms(1) ns obtain s rest where "segs = s # rest" and "s \<noteq> []" by (cases segs) auto
  then have ne: "joinPath segs \<noteq> pathSep" by (cases s) simp_all
  let ?n = "map (lowerIf (caseInsensitive t)) segs"
  from insert_loop_static [OF assms(2), of t "[]" "[]" 0] obtain t1 where
    lp: "insert_loop t [] [] 0 segs = Inr (t1, ?n, [])" and
    d: "deref (root t1) ?n \<noteq> None" and
    f: "caseInsensitive t1 = caseInsensitive t" "searchUnvisitedParams t1 = searchUnvisitedParams t"
    by auto
  from d obtain nd1 where nd1: "deref (root t1) ?n = Some nd1" by auto
  let ?g = "\<lambda>f. f\<lparr>paramKeys := [], key := joinPath segs,
                 staticKey := resolveStaticPart (joinPath segs), end' := True\<rparr>"
  let ?t' = "t1\<lparr>root := modify (setFields ?g) ?n (root t1)\<rparr>"
  have "Trie_insert t (joinPath segs) = Inr (?t', ?n)"
    using sp ne lp by (simp add: Trie_insert_def andThen_def)
  moreover have "deref (root ?t') ?n = Some (setFields ?g nd1)"
    using nd1 by (simp add: deref_modify)
  moreover have "end' (flds (setFields ?g nd1))" "key (flds (setFields ?g nd1)) = joinPath segs"
    by (simp_all add: setFields_def)
  ultimately show ?thesis using f by auto
qed

lemma slice_mid: "slice (pre @ s @ post) (length pre) (length pre + length s) = Inr s"
  by (simp add: slice_def)

lemma deref_append:
  "deref r (xs @ ys) = (case deref r xs of None \<Rightarrow> None | Some nd \<Rightarrow> deref nd ys)"
  by (induction xs arbitrary: r) (auto split: option.splits)

lemma nth_not_sep: "c \<notin> set s \<Longrightarrow> j < length s \<Longrightarrow> s ! j \<noteq> c"
  using nth_mem by metis

lemma scan_segment:
  assumes "\<forall>j < k. q ! (i + j) \<noteq> pathSepB" and "i + k \<le> length q"
  shows "search_loop t q qc (State n start i pv visited)
           = search_loop t q qc (State n start (i + k) pv visited)"
  using assms
proof (induction k arbitrary: i)
  case 0
  show ?case by simp
next
  case (Suc k)
  from Suc.prems have "q ! i \<noteq> pathSepB" and "i < length q" by auto
  then have "search_step t q qc (State n start i pv visited)
               = Continue (State n start (i + 1) pv visited)"
    by (simp add: search_step_def)
  then have "search_loop t q qc (State n start i pv visited)
               = search_loop t q qc (State n start (i + 1) pv visited)"
    by (subst search_loop.simps) simp
  also have "\<dots> = search_loop t q qc (State n start (i + 1 + k) pv visited)"
    using Suc.prems by (intro Suc.IH) auto
  finally show ?case by simp
qed

lemma static_step:
  assumes "i \<le> length q" and "i = length q \<or> q ! i = pathSepB"
    and "slice qc start i = Inr sk" and "deref (root t) nr = Some nd"
    and "getChildOf nd sk = Some c"
  shows "search_step t q qc (State (Some nr) start i pv visited)
           = afterSegment t q qc (Some (nr @ [sk])) i pv visited"
  using assms by (auto simp: search_step_def)

lemma walk_static:
  assumes "\<forall>x \<in> set (s # rest). pathSepB \<notin> set x"
    and "q = pre @ s @ joinPath rest"
    and "qc = map f q"
    and "deref (root t) (nr @ map (map f) (s # rest)) = Some ndT"
    and "end' (flds ndT)"
  shows "search_loop t q qc (State (Some nr) (length pre) (length pre) pv visited)
           = Broke (Some (nr @ map (map f) (s # rest))) pv"
  using assms
proof (induction rest arbitrary: s pre nr)
  case Nil
  let ?i = "length pre + length s"
  from Nil.prems have q: "q = pre @ s @ []" and qc: "qc = map f pre @ map f s @ []" by simp_all
  from Nil.prems(1) have nosep: "\<forall>j < length s. q ! (length pre + j) \<noteq> pathSepB"
    unfolding q by (auto simp: nth_append nth_not_sep)
  have len: "?i = length q" unfolding q by simp
  have scan: "search_loop t q qc (State (Some nr) (length pre) (length pre) pv visited)
                = search_loop t q qc (State (Some nr) (length pre) ?i pv visited)"
    using nosep len by (intro scan_segment) auto
  have sl: "slice qc (length pre) ?i = Inr (map f s)"
    using slice_mid [of "map f pre" "map f s" "[]"] unfolding qc by simp
  from Nil.prems(4) have dfull: "deref (root t) (nr @ [map f s]) = Some ndT" by simp
  then obtain nd where nd: "deref (root t) nr = Some nd" and ch: "getChildOf nd (map f s) = Some ndT"
    by (auto simp: deref_snoc split: option.splits)
  have "search_step t q qc (State (Some nr) (length pre) ?i pv visited)
          = afterSegment t q qc (Some (nr @ [map f s])) ?i pv visited"
    using len sl nd ch by (intro static_step) auto
  also have "\<dots> = Exit (Broke (Some (nr @ [map f s])) pv)"
    using len dfull Nil.prems(5) by (simp add: afterSegment_def)
  finally have "search_loop t q qc (State (Some nr) (length pre) ?i pv visited)
                  = Broke (Some (nr @ [map f s])) pv"
    by (subst search_loop.simps) simp
  with scan show ?case by simp
next
  case (Cons s' rest)
  let ?i = "length pre + length s"
  let ?post = "pathSepB # s' @ joinPath rest"
  from Cons.prems have q: "q = pre @ s @ ?post" and qc: "qc = map f pre @ map f s @ map f ?post"
    by simp_all
  from Cons.prems(1) have nosep: "\<forall>j < length s. q ! (length pre + j) \<noteq> pathSepB"
    unfolding q by (auto simp: nth_append nth_not_sep)
  have len: "?i < length q" unfolding q by simp
  have sep: "q ! ?i = pathSepB" unfolding q by (simp add: nth_append)
  have scan: "search_loop t q qc (State (Some nr) (length pre) (length pre) pv visited)
                = search_loop t q qc (State (Some nr) (length pre) ?i pv visited)"
    using nosep len by (intro scan_segment) auto
  have sl: "slice qc (length pre) ?i = Inr (map f s)"
    using slice_mid [of "map f pre" "map f s" "map f ?post"] unfolding qc by simp
  from Cons.prems(4) have dfull: "deref (root t) ((nr @ [map f s]) @ map (map f) (s' # rest)) = Some ndT"
    by simp
  then obtain nd' where d1: "deref (root t) (nr @ [map f s]) = Some nd'"
    unfolding deref_append [of "root t" "nr @ [map f s]"] by (auto split: option.splits)
  then obtain nd where nd: "deref (root t) nr = Some nd" and ch: "getChildOf nd (map f s) = Some nd'"
    by (auto simp: deref_snoc split: option.splits)
  have "search_step t q qc (State (Some nr) (length pre) ?i pv visited)
          = afterSegment t q qc (Some (nr @ [map f s])) ?i pv visited"
    using len sep sl nd ch by (intro static_step) auto
  also have "\<dots> = Continue (State (Some (nr @ [map f s])) (?i + 1) (?i + 1) pv visited)"
    using len by (simp add: afterSegment_def)
  finally have "search_loop t q qc (State (Some nr) (length pre) ?i pv visited)
                  = search_loop t q qc (State (Some (nr @ [map f s])) (?i + 1) (?i + 1) pv visited)"
    by (subst search_loop.simps) simp
  also have "\<dots> = Broke (Some ((nr @ [map f s]) @ map (map f) (s' # rest))) pv"
  proof -
    have "search_loop t q qc (State (Some (nr @ [map f s])) (length (pre @ s @ pathSep))
             (length (pre @ s @ pathSep)) pv visited)
           = Broke (Some ((nr @ [map f s]) @ map (map f) (s' # rest))) pv"
    proof (rule Cons.IH)
      show "\<forall>x \<in> set (s' # rest). pathSepB \<notin> set x" using Cons.prems(1) by simp
      show "q = (pre @ s @ pathSep) @ s' @ joinPath rest" unfolding q by simp
      show "qc = map f q" by (rule Cons.prems(3))
      show "deref (root t) ((nr @ [map f s]) @ map (map f) (s' # rest)) = Some ndT" by (rule dfull)
      show "end' (flds ndT)" by (rule Cons.prems(5))
    qed
    then show ?thesis by simp
  qed
  finally show ?case using scan by simp
qed

section \<open>Claims settled on concrete tries\<close>

text \<open>
  C1. With \<open>searchUnvisitedParams\<close> on, after the insertion of \<open>/a/b/c/z\<close> and
  \<open>/a/:p1/c/d\<close>, the search of \<open>/a/b/c/d\<close> returns the terminal node of \<open>/a/:p1/c/d\<close>
  and makes the one call \<open>Set("p1", "b")\<close>; with the option off the same search returns
  nil and makes no call.
\<close>

theorem C1_unvisited_param_backtracking:
  "scenario (NewTrieWithOptions False True) [''/a/b/c/z'', ''/a/:p1/c/d''] ''/a/b/c/d''
     = Inr (Some [''a'', '':'', ''c'', ''d''], [(''p1'', ''b'')], Some (True, ''/a/:p1/c/d'', [''p1'']))
   \<and> scenario (NewTrieWithOptions False False) [''/a/b/c/z'', ''/a/:p1/c/d''] ''/a/b/c/d''
     = Inr (None, [], None)"
  by code_simp

text \<open>
  C2. The claim is that the prefix-length and suffix-length tables of every node are
  strictly descending and free of duplicates after any insertions. The code appends: two
  prefix patterns under the root with literals of lengths 1 and 2 leave the table
  \<open>[1, 2]\<close>, the same prefix pattern twice leaves \<open>[1, 1]\<close>, and three suffix patterns
  leave \<open>[1, 2, 1]\<close>. The search then probes the shorter literal first: \<open>/abc\<close> goes to
  \<open>/a+:x\<close> although \<open>/ab+:y\<close> is registered.
\<close>

theorem C2_length_tables_as_appended:
  "map_sum id (\<lambda>(t, ns). prefixLengthsAt t []) (insertAll NewTrie [''/a+:x'', ''/ab+:y'']) = Inr [1, 2]
   \<and> map_sum id (\<lambda>(t, ns). prefixLengthsAt t []) (insertAll NewTrie [''/a+:x'', ''/a+:x'']) = Inr [1, 1]
   \<and> map_sum id (\<lambda>(t, ns). suffixLengthsAt t []) (insertAll NewTrie [''/x-:a'', ''/y-:ab'', ''/x-:a'']) = Inr [1, 2, 1]
   \<and> scenario NewTrie [''/a+:x'', ''/ab+:y''] ''/abc''
     = Inr (Some [''a+:''], [(''x'', ''abc'')], Some (True, ''/a+:x'', [''x'']))"
  by code_simp

text \<open>
  C3. After the insertion of \<open>/hello/*p\<close> and \<open>/hello/:p1/static/:p2\<close> into a new trie,
  the search of \<open>/hello/x/static/y\<close> returns the terminal of the second pattern with
  \<open>p1 = "x"\<close> and \<open>p2 = "y"\<close>, the search of \<open>/hello/x\<close> returns the terminal of
  \<open>/hello/*p\<close> with \<open>p = "x"\<close>, and the search of \<open>/hello/x/other\<close> returns it with
  \<open>p = "x/other"\<close>.
\<close>

theorem C3_closest_wildcard_fallback:
  "scenario NewTrie [''/hello/*p'', ''/hello/:p1/static/:p2''] ''/hello/x/static/y''
     = Inr (Some [''hello'', '':'', ''static'', '':''], [(''p1'', ''x''), (''p2'', ''y'')],
            Some (True, ''/hello/:p1/static/:p2'', [''p1'', ''p2'']))
   \<and> scenario NewTrie [''/hello/*p'', ''/hello/:p1/static/:p2''] ''/hello/x''
     = Inr (Some [''hello'', ''*''], [(''p'', ''x'')], Some (True, ''/hello/*p'', [''p'']))
   \<and> scenario NewTrie [''/hello/*p'', ''/hello/:p1/static/:p2''] ''/hello/x/other''
     = Inr (Some [''hello'', ''*''], [(''p'', ''x/other'')], Some (True, ''/hello/*p'', [''p'']))"
  by code_simp

text \<open>
  The scenario of C3 in a trie with \<open>searchUnvisitedParams\<close> on: the retry at the end of
  the request takes the wildcard of \<open>hello\<close> with the bounds of the segment \<open>hello\<close>, so
  \<open>/hello/x\<close> binds \<open>p = "hello"\<close>.
\<close>

lemma closest_wildcard_with_unvisited_params:
  "scenario (NewTrieWithOptions False True) [''/hello/*p'', ''/hello/:p1/static/:p2''] ''/hello/x''
     = Inr (Some [''hello'', ''*''], [(''p'', ''hello'')], Some (True, ''/hello/*p'', [''p'']))"
  by code_simp

text \<open>
  C4. The claim is that a search that returns a terminal node \<open>n\<close> makes
  \<open>len(n.paramKeys)\<close> calls, the call number \<open>i\<close> being \<open>Set(n.paramKeys[i], paramValues[i])\<close>,
  also in the runs in which backtracking cut the buffer. The cut is
  \<open>paramValues[:min(n.paramCount, cap(paramValues))]\<close> for the node \<open>n\<close> that the search goes
  back to, and \<open>insert\<close> writes \<open>paramCount\<close> of a node in the round that descends from it:
  a node that is only terminal keeps 0, and a parameter node counts its own parameter.

  With \<open>searchUnvisitedParams\<close> on and the patterns \<open>/x/:a/*p\<close> and \<open>/x/:a/b/c\<close>, the
  request \<open>/x/1/b\<close> ends at the node \<open>b\<close>, which is not terminal, and goes back to the
  wildcard terminal, whose \<open>paramCount\<close> is 0: the value of \<open>a\<close> is dropped, and the search
  returns the terminal of \<open>/x/:a/*p\<close> with one call for its two keys. With the patterns
  \<open>/:x/b/:w/z\<close> and \<open>/:x/:y/c/d\<close>, the request \<open>/1/b/c/d\<close> goes back to the node of \<open>:y\<close>,
  whose \<open>paramCount\<close> is 2: the value \<open>c\<close> captured for \<open>:w\<close> stays in the buffer, and \<open>y\<close>
  is set to \<open>c\<close> where the segment of \<open>:y\<close> is \<open>b\<close>.
\<close>

theorem C4_backtracking_miscounts:
  "scenario (NewTrieWithOptions False True) [''/x/:a/*p'', ''/x/:a/b/c''] ''/x/1/b''
     = Inr (Some [''x'', '':'', ''*''], [(''a'', ''1'')], Some (True, ''/x/:a/*p'', [''a'', ''p'']))
   \<and> paramCountAt (trieOf (NewTrieWithOptions False True) [''/x/:a/*p'', ''/x/:a/b/c''])
         [''x'', '':'', ''*''] = 0
   \<and> scenario (NewTrieWithOptions False True) [''/:x/b/:w/z'', ''/:x/:y/c/d''] ''/1/b/c/d''
     = Inr (Some ['':'', '':'', ''c'', ''d''], [(''x'', ''1''), (''y'', ''c'')],
            Some (True, ''/:x/:y/c/d'', [''x'', ''y'']))
   \<and> paramCountAt (trieOf (NewTrieWithOptions False True) [''/:x/b/:w/z'', ''/:x/:y/c/d''])
         ['':'', '':''] = 2"
  by code_simp

text \<open>
  C5. The claim is that the search never panics on a trie built by insertions of
  non-empty patterns. With the suffix pattern \<open>/abc-:a/*p\<close> and the pattern
  \<open>/abc-:a/z/w\<close>, the request \<open>/a/z\<close> ends at the node \<open>z\<close>, which is not terminal; the
  fallback takes the wildcard of its parent, whose \<open>staticKey\<close> \<open>/abc-\<close> is longer than
  the request, and \<open>q[len(n.staticKey):]\<close> is out of range. With \<open>/*a/b\<close> the wildcard
  node is not terminal and has no \<open>paramKeys\<close>, and \<open>n.paramKeys[0]\<close> is out of range
  for the request \<open>/x\<close>.
\<close>

theorem C5_search_panics:
  "scenario NewTrie [''/abc-:a/*p'', ''/abc-:a/z/w''] ''/a/z'' = Inl SliceBoundsOutOfRange
   \<and> scenario NewTrie [''/*a/b''] ''/x'' = Inl IndexOutOfRange"
  by code_simp

text \<open>
  C6, as claimed, fails on its suffix half: the lexer takes the name before the token
  \<open>-:\<close> and the literal after it, so \<open>/img/-:name.png\<close> registers the literal
  \<open>name.png\<close> under an empty name, and \<open>/img/logo.png\<close> goes to the named terminal.
\<close>

theorem C6_suffix_pattern_counterexample:
  "scenario NewTrie [''/img/-:name.png'', ''/img/:name''] ''/img/logo.png''
     = Inr (Some [''img'', '':''], [(''name'', ''logo.png'')], Some (True, ''/img/:name'', [''name'']))"
  by code_simp

text \<open>
  C6, amended. After the insertion of \<open>/files/file+:name\<close> and \<open>/files/:name\<close>, the
  search of \<open>/files/fileA\<close> returns the prefix terminal with \<open>name = "fileA"\<close> and the
  search of \<open>/files/other\<close> the named terminal with \<open>name = "other"\<close>. After the insertion
  of \<open>/img/name-:.png\<close>, the suffix pattern in the syntax of the lexer, and \<open>/img/:name\<close>,
  the search of \<open>/img/logo.png\<close> returns the suffix terminal with \<open>name = "logo.png"\<close> and
  the search of \<open>/img/logo.jpg\<close> the named terminal with \<open>name = "logo.jpg"\<close>. The prefix
  and the suffix child come before the named child, and the value is the whole segment.
\<close>

theorem C6_prefix_suffix_priority:
  "scenario NewTrie [''/files/file+:name'', ''/files/:name''] ''/files/fileA''
     = Inr (Some [''files'', ''file+:''], [(''name'', ''fileA'')], Some (True, ''/files/file+:name'', [''name'']))
   \<and> scenario NewTrie [''/files/file+:name'', ''/files/:name''] ''/files/other''
     = Inr (Some [''files'', '':''], [(''name'', ''other'')], Some (True, ''/files/:name'', [''name'']))
   \<and> scenario NewTrie [''/img/name-:.png'', ''/img/:name''] ''/img/logo.png''
     = Inr (Some [''img'', ''-:.png''], [(''name'', ''logo.png'')], Some (True, ''/img/name-:.png'', [''name'']))
   \<and> scenario NewTrie [''/img/name-:.png'', ''/img/:name''] ''/img/logo.jpg''
     = Inr (Some [''img'', '':''], [(''name'', ''logo.jpg'')], Some (True, ''/img/:name'', [''name'']))"
  by code_simp

text \<open>
  C10. After the insertion of \<open>/hello/*p\<close> alone, the search of \<open>/hello/\<close> returns the
  wildcard terminal and makes the one call \<open>Set("p", "")\<close>.
\<close>

theorem C10_wildcard_empty_remainder:
  "scenario NewTrie [''/hello/*p''] ''/hello/''
     = Inr (Some [''hello'', ''*''], [(''p'', '''')], Some (True, ''/hello/*p'', [''p'']))"
  by code_simp


section \<open>Claims about every trie\<close>

text \<open>
  C9. A pattern with one trailing slash is split into the same segments as the pattern
  without it, so both insertions walk the same nodes and end at the same terminal node:
  the tries they leave differ in the \<open>key\<close> and \<open>staticKey\<close> recorded at that node and in
  nothing else. A search of \<open>/a\<close> after the insertion of \<open>/a/\<close>, and after the insertion
  of \<open>/a\<close>, returns that terminal.
\<close>

theorem C9_trailing_slash_insert:
  assumes "p \<noteq> []" and "last p \<noteq> pathSepB"
  shows "slowPathSplit (p @ pathSep) = slowPathSplit p
     \<and> map_sum id snd (Trie_insert t (p @ pathSep)) = map_sum id snd (Trie_insert t p)
     \<and> (\<forall>t1 n. Trie_insert t p = Inr (t1, n) \<longrightarrow>
           Trie_insert t (p @ pathSep)
             = Inr (t1\<lparr>root := modify (setFields (\<lambda>f. f\<lparr>key := p @ pathSep,
                          staticKey := resolveStaticPart (p @ pathSep)\<rparr>)) n (root t1)\<rparr>, n))
     \<and> map_sum id snd (insertAll NewTrie [''/a'', ''/a/'']) = Inr [[''a''], [''a'']]
     \<and> scenario NewTrie [''/a/''] ''/a'' = Inr (Some [''a''], [], Some (True, ''/a/'', []))
     \<and> scenario NewTrie [''/a''] ''/a'' = Inr (Some [''a''], [], Some (True, ''/a'', []))"
proof (intro conjI allI impI)
  show "slowPathSplit (p @ pathSep) = slowPathSplit p"
    using assms by (rule slowPathSplit_trailing_sep)
  show "map_sum id snd (Trie_insert t (p @ pathSep)) = map_sum id snd (Trie_insert t p)"
  proof (cases "Trie_insert t p")
    case (Inl e)
    from assms have "p \<noteq> pathSep" "p @ pathSep \<noteq> pathSep" by auto
    with Inl show ?thesis
      by (auto simp: Trie_insert_def andThen_def slowPathSplit_trailing_sep [OF assms]
          split: sum.splits)
  next
    case (Inr r)
    obtain t1 n where "r = (t1, n)" by (cases r)
    with Inr insert_trailing_sep [OF assms, of t t1 n] show ?thesis by simp
  qed
  show "Trie_insert t (p @ pathSep)
          = Inr (t1\<lparr>root := modify (setFields (\<lambda>f. f\<lparr>key := p @ pathSep,
                       staticKey := resolveStaticPart (p @ pathSep)\<rparr>)) n (root t1)\<rparr>, n)"
    if "Trie_insert t p = Inr (t1, n)" for t1 n
    using assms that by (rule insert_trailing_sep)
  show "map_sum id snd (insertAll NewTrie [''/a'', ''/a/'']) = Inr [[''a''], [''a'']]"
    by code_simp
  show "scenario NewTrie [''/a/''] ''/a'' = Inr (Some [''a''], [], Some (True, ''/a/'', []))"
    by code_simp
  show "scenario NewTrie [''/a''] ''/a'' = Inr (Some [''a''], [], Some (True, ''/a'', []))"
    by code_simp
qed

theorem C9_trailing_slash_insert_witness:
  "''/a'' \<noteq> [] \<and> last ''/a'' \<noteq> pathSepB
   \<and> slowPathSplit ''/a/'' = slowPathSplit ''/a''
   \<and> map_sum id snd (Trie_insert NewTrie ''/a/'') = map_sum id snd (Trie_insert NewTrie ''/a'')
   \<and> map_sum id snd (Trie_insert NewTrie ''/a'') = Inr [''a'']"
proof -
  have a: "''/a'' \<noteq> []" and b: "last ''/a'' \<noteq> pathSepB" by simp_all
  have c: "map_sum id snd (Trie_insert NewTrie ''/a'') = Inr [''a'']" by code_simp
  from C9_trailing_slash_insert [OF a b, of NewTrie] a b c show ?thesis by simp
qed

text \<open>
  C7. In a trie built by insertions into a new trie, with any options, the search of the
  empty request and of \<open>/\<close> returns the child \<open>/\<close> of the root when the pattern \<open>/\<close> was
  inserted; otherwise, when a pattern with a root wildcard was inserted, it returns the
  child \<open>*\<close> of the root and makes no call of \<open>params.Set\<close>; otherwise it returns nil.
\<close>

theorem C7_empty_and_root_request:
  assumes "insertAll (NewTrieWithOptions ci su) ps = Inr (t, ns)"
    and "q = [] \<or> q = pathSep"
  shows "Search t q =
           Inr (if pathSep \<in> set ps then (Some [pathSep], [])
                else if (\<exists>p \<in> set ps. rootWildcardPattern p) then (Some [WildcardParamStart], [])
                else (None, []))"
proof -
  have "rootChildrenOK (NewTrieWithOptions ci su)"
    by (simp add: rootChildrenOK_def NewTrieWithOptions_def)
  from insertAll_root_facts [OF assms(1) this]
  have ok: "rootChildrenOK t"
    and slash: "hasRootSlash t = (pathSep \<in> set ps)"
    and wild: "hasRootWildcard t = (\<exists>p \<in> set ps. rootWildcardPattern p)"
    by (simp_all add: NewTrieWithOptions_def)
  from Search_fastPath [OF ok assms(2)] slash wild show ?thesis by simp
qed

theorem C7_empty_and_root_request_witness:
  "insertAll (NewTrieWithOptions False False) [''/a'', ''/*all'']
     = Inr (trieOf (NewTrieWithOptions False False) [''/a'', ''/*all''], [[''a''], [''*'']])
   \<and> (''/'' = [] \<or> ''/'' = pathSep)
   \<and> Search (trieOf (NewTrieWithOptions False False) [''/a'', ''/*all'']) ''/'' = Inr (Some [''*''], [])
   \<and> describe (trieOf (NewTrieWithOptions False False) [''/a'', ''/*all'']) (Some [''*''])
       = Some (True, ''/*all'', [''all''])"
proof -
  let ?t0 = "NewTrieWithOptions False False"
  let ?ps = "[''/a'', ''/*all'']"
  have b: "insertAll ?t0 ?ps = Inr (trieOf ?t0 ?ps, [[''a''], [''*'']])" by code_simp
  have q: "''/'' = [] \<or> ''/'' = pathSep" by simp
  have w: "rootWildcardPattern ''/*all''" "\<not> rootWildcardPattern ''/a''" by code_simp+
  have d: "describe (trieOf ?t0 ?ps) (Some [''*'']) = Some (True, ''/*all'', [''all''])" by code_simp
  from C7_empty_and_root_request [OF b q] w
  have "Search (trieOf ?t0 ?ps) ''/'' = Inr (Some [''*''], [])" by simp
  with b q d show ?thesis by blast
qed

text \<open>
  C8, as claimed, fails for a static pattern with a trailing slash: insertion strips the
  slash, the search does not, so after the insertion of \<open>/a/\<close>, whose one segment \<open>a\<close> is
  static, the search of \<open>/a/\<close> looks for an empty segment under \<open>a\<close> and returns nil.
\<close>

theorem C8_trailing_slash_counterexample:
  "slowPathSplit ''/a/'' = Inr [''a''] \<and> staticSegment ''a''
   \<and> scenario NewTrie [''/a/''] ''/a/'' = Inr (None, [], None)"
  by code_simp

text \<open>
  C8, amended. Let \<open>p\<close> be a pattern \<open>/s1/.../sk\<close> of one or more static segments, so
  without a trailing slash, and let the trie be case-sensitive, or case-insensitive with
  \<open>p\<close> made of ASCII bytes only. Then the insertion of \<open>p\<close> succeeds, and the search of
  \<open>p\<close> in the trie it leaves returns exactly the terminal node of the insertion and makes
  no call of \<open>params.Set\<close>. The same holds for the pattern \<open>/\<close> in every trie.

  A pattern with other bytes in a case-insensitive trie is left out of the statement:
  there \<open>strings.ToLower\<close> can give a lowered request of another length than the request,
  whose indices \<open>Search\<close> uses on both, and the round trip is not claimed.
\<close>

theorem C8_static_round_trip:
  assumes "segs \<noteq> []" and "\<forall>s \<in> set segs. staticSegment s"
    and "caseInsensitive t \<longrightarrow> (\<forall>s \<in> set segs. \<forall>c \<in> set s. (of_char c :: nat) < 128)"
  shows "(\<exists>t' n nd. Trie_insert t (joinPath segs) = Inr (t', n)
            \<and> deref (root t') n = Some nd \<and> end' (flds nd) \<and> key (flds nd) = joinPath segs
            \<and> Search t' (joinPath segs) = Inr (Some n, []))
     \<and> (\<exists>t' n. Trie_insert t pathSep = Inr (t', n) \<and> Search t' pathSep = Inr (Some n, []))"
proof
  let ?ci = "caseInsensitive t"
  let ?q = "joinPath segs"
  let ?n = "map (lowerIf ?ci) segs"
  from Trie_insert_static [OF assms(1,2), of t] obtain t' nd where
    ins: "Trie_insert t ?q = Inr (t', ?n)" and
    d: "deref (root t') ?n = Some nd" and
    e: "end' (flds nd)" and k: "key (flds nd) = ?q" and
    ci: "caseInsensitive t' = ?ci"
    by blast
  from assms(1) obtain s rest where segs: "segs = s # rest" by (cases segs) auto
  with assms(2) have "s \<noteq> []" by (simp add: staticSegment_def)
  with segs have long: "\<not> (length ?q = 0 \<or> (length ?q = 1 \<and> ?q ! 0 = pathSepB))"
    by (cases s) simp_all
  have qc: "(if caseInsensitive t' then strings_ToLower ?q else ?q) = map (lowerByteIf ?ci) ?q"
    using lowerIf_map [of ?ci ?q] by (simp add: ci lowerIf_def)
  have n: "?n = [] @ map (map (lowerByteIf ?ci)) (s # rest)"
    by (simp add: segs lowerIf_map)
  have "search_loop t' ?q (map (lowerByteIf ?ci) ?q)
          (State (Some []) (length pathSep) (length pathSep) nilSlice [])
        = Broke (Some ([] @ map (map (lowerByteIf ?ci)) (s # rest))) nilSlice"
  proof (rule walk_static)
    show "\<forall>x \<in> set (s # rest). pathSepB \<notin> set x"
      using assms(2) segs by (simp add: staticSegment_def)
    show "?q = pathSep @ s @ joinPath rest" by (simp add: segs)
    show "map (lowerByteIf ?ci) ?q = map (lowerByteIf ?ci) ?q" ..
    show "deref (root t') ([] @ map (map (lowerByteIf ?ci)) (s # rest)) = Some nd"
      using d n by simp
    show "end' (flds nd)" by (rule e)
  qed
  then have loop: "search_loop t' ?q (if caseInsensitive t' then strings_ToLower ?q else ?q)
          (State (Some []) 1 1 nilSlice []) = Broke (Some ?n) nilSlice"
    unfolding qc using n by simp
  have al: "afterLoop t' ?q (Some ?n) nilSlice = Inr (Some ?n, [])"
    using d e by (simp add: afterLoop_def elems_def nilSlice_def)
  have "Search t' ?q = Inr (Some ?n, [])"
    unfolding Search_def Let_def if_not_P [OF long] loop exit.case al ..
  with ins d e k
  show "\<exists>t' n nd. Trie_insert t ?q = Inr (t', n)
            \<and> deref (root t') n = Some nd \<and> end' (flds nd) \<and> key (flds nd) = ?q
            \<and> Search t' ?q = Inr (Some n, [])"
    by blast
next
  let ?t0 = "t\<lparr>hasRootSlash := True\<rparr>"
  have cl: "classify u [] [] pathSep = (u, pathSep, [])" for u
    by (simp add: classify_def Let_def not_token_in_sep)
  have "\<exists>t3. insert_loop ?t0 [] [] 0 [pathSep] = Inr (t3, [pathSep], [])"
    by (simp add: cl Let_def)
  then obtain t3 where lp: "insert_loop ?t0 [] [] 0 [pathSep] = Inr (t3, [pathSep], [])" ..
  have "slowPathSplit pathSep = Inr [pathSep]" by (simp add: slowPathSplit_def)
  with lp obtain t' where ins: "Trie_insert t pathSep = Inr (t', [pathSep])"
    by (simp add: Trie_insert_def andThen_def)
  from Trie_insert_root_facts(1,4) [OF ins]
  have "hasRootSlash t'" and "pathSep \<in> keysOf (root t')" by simp_all
  then have "Search t' pathSep = Inr (Some [pathSep], [])"
    using getChildOf_keysOf [of "root t'" pathSep]
    by (auto simp: Search_def getChild_def andThen_def split: option.splits)
  with ins show "\<exists>t' n. Trie_insert t pathSep = Inr (t', n) \<and> Search t' pathSep = Inr (Some n, [])"
    by blast
qed

theorem C8_static_round_trip_witness:
  "staticSegment ''a'' \<and> staticSegment ''b'' \<and> \<not> caseInsensitive NewTrie
   \<and> (\<exists>t' n nd. Trie_insert NewTrie (joinPath [''a'', ''b'']) = Inr (t', n)
            \<and> deref (root t') n = Some nd \<and> end' (flds nd) \<and> key (flds nd) = joinPath [''a'', ''b'']
            \<and> Search t' (joinPath [''a'', ''b'']) = Inr (Some n, []))
   \<and> joinPath [''a'', ''b''] = ''/a/b''
   \<and> scenario NewTrie [''/a/b''] ''/a/b'' = Inr (Some [''a'', ''b''], [], Some (True, ''/a/b'', []))
   \<and> staticSegment ''A'' \<and> caseInsensitive (NewTrieWithOptions True False)
   \<and> (of_char CHR ''A'' :: nat) < 128 \<and> (of_char CHR ''b'' :: nat) < 128
   \<and> (\<exists>t' n nd. Trie_insert (NewTrieWithOptions True False) (joinPath [''A'', ''b'']) = Inr (t', n)
            \<and> deref (root t') n = Some nd \<and> end' (flds nd) \<and> key (flds nd) = joinPath [''A'', ''b'']
            \<and> Search t' (joinPath [''A'', ''b'']) = Inr (Some n, []))
   \<and> scenario (NewTrieWithOptions True False) [''/A/b''] ''/A/b''
       = Inr (Some [''a'', ''b''], [], Some (True, ''/A/b'', []))"
proof -
  have a: "[''a'', ''b''] \<noteq> []" by simp
  have s: "staticSegment ''a''" "staticSegment ''b''" by code_simp+
  then have b: "\<forall>s \<in> set [''a'', ''b'']. staticSegment s" by simp
  have n: "\<not> caseInsensitive NewTrie" by (simp add: NewTrie_def)
  then have c: "caseInsensitive NewTrie \<longrightarrow> (\<forall>s \<in> set [''a'', ''b'']. \<forall>c \<in> set s. (of_char c :: nat) < 128)"
    by simp
  have j: "joinPath [''a'', ''b''] = ''/a/b''" by simp
  have e: "scenario NewTrie [''/a/b''] ''/a/b'' = Inr (Some [''a'', ''b''], [], Some (True, ''/a/b'', []))"
    by code_simp
  have a': "[''A'', ''b''] \<noteq> []" by simp
  have s': "staticSegment ''A''" by code_simp
  with s have b': "\<forall>s \<in> set [''A'', ''b'']. staticSegment s" by simp
  have ci: "caseInsensitive (NewTrieWithOptions True False)" by (simp add: NewTrieWithOptions_def)
  have asc: "(of_char CHR ''A'' :: nat) < 128" "(of_char CHR ''b'' :: nat) < 128" by simp_all
  then have c': "caseInsensitive (NewTrieWithOptions True False)
          \<longrightarrow> (\<forall>s \<in> set [''A'', ''b'']. \<forall>c \<in> set s. (of_char c :: nat) < 128)"
    by simp
  have e': "scenario (NewTrieWithOptions True False) [''/A/b''] ''/A/b''
       = Inr (Some [''a'', ''b''], [], Some (True, ''/A/b'', []))"
    by code_simp
  from conjunct1 [OF C8_static_round_trip [OF a b c]]
       conjunct1 [OF C8_static_round_trip [OF a' b' c']] s n j e s' ci asc e'
  show ?thesis by blast
qed

end
